theory Spec2Isabelle
  imports
    Main
    "HOL-Library.Sorting_Algorithms"
    "HOL-Library.Char_ord"
    "HOL-Library.List_Lexorder"
begin

section \<open>Item model\<close>

text \<open>
  The source declares \<^verbatim>\<open>type Item = string | Record<string, Item[]>\<close>. A string is
  modelled as \<open>Str\<close>; a record as \<open>Rec\<close> of its own enumerable properties, listed in
  the order of \<^verbatim>\<open>Object.keys\<close>, so that \<^verbatim>\<open>Object.keys(x)[0]\<close> is the first entry.
  The spec's Leaf and Node are the string and the record with exactly one key.

  Characters are the code points below 256; strings are \<open>char list\<close>. Arrays are
  values: the trees the parser builds share no array and have no cycle, so in-place
  mutation is modelled by returning the updated value.
\<close>

datatype item = Str string | Rec "(string \<times> item list) list"

abbreviation Leaf :: "string \<Rightarrow> item" where
  "Leaf name \<equiv> Str name"

abbreviation Node :: "string \<Rightarrow> item list \<Rightarrow> item" where
  "Node name children \<equiv> Rec [(name, children)]"

text \<open>The only runtime fault of the three functions is a \<^verbatim>\<open>TypeError\<close>.\<close>

datatype error = TypeError

section \<open>String primitives of the host language\<close>

text \<open>
  \<^verbatim>\<open>String.prototype.trim\<close> removes white space and line terminators at both ends;
  below code point 256 these are TAB, LF, VT, FF, CR, SPACE and NBSP.
\<close>

definition isWhiteSpace :: "char \<Rightarrow> bool" where
  "isWhiteSpace c =
     (c = CHR 0x09 \<or> c = CHR 0x0A \<or> c = CHR 0x0B \<or> c = CHR 0x0C \<or> c = CHR 0x0D
      \<or> c = CHR 0x20 \<or> c = CHR 0xA0)"

definition trim :: "string \<Rightarrow> string" where
  "trim s = rev (dropWhile isWhiteSpace (rev (dropWhile isWhiteSpace s)))"

text \<open>
  \<^verbatim>\<open>String.prototype.slice(start, end)\<close>: a negative index counts from the end, and
  both are clamped to the string.
\<close>

definition slice :: "string \<Rightarrow> int \<Rightarrow> int \<Rightarrow> string" where
  "slice s start stop =
     (let len = int (length s);
          from = (if start < 0 then max (len + start) 0 else min start len);
          to = (if stop < 0 then max (len + stop) 0 else min stop len)
      in take (nat (to - from)) (drop (nat from) s))"

text \<open>\<^verbatim>\<open>if (lastItem)\<close>: \<^verbatim>\<open>undefined\<close> and the empty string are falsy, an object is truthy.\<close>

fun truthy :: "item \<Rightarrow> bool" where
  "truthy (Str s) = (s \<noteq> [])"
| "truthy (Rec kvs) = True"

text \<open>
  \<^verbatim>\<open>const key = Object.keys(lastItem)[0]; lastItem[key] = children;\<close>
  On a non-empty string the first key is \<^verbatim>\<open>"0"\<close>, a read-only index of the primitive:
  the assignment throws in a module (strict mode). On a record with no key the property
  \<^verbatim>\<open>"undefined"\<close> is created.
\<close>

fun assignFirstKey :: "item \<Rightarrow> item list \<Rightarrow> error + item" where
  "assignFirstKey (Str s) children = Inl TypeError"
| "assignFirstKey (Rec []) children = Inr (Rec [(''undefined'', children)])"
| "assignFirstKey (Rec ((k, v) # kvs)) children = Inr (Rec ((k, children) # kvs))"

section \<open>Parser\<close>

text \<open>
  The state of the \<^verbatim>\<open>for\<close> loop of \<^verbatim>\<open>parseInput\<close>: \<^verbatim>\<open>items\<close>, \<^verbatim>\<open>buffer\<close>, \<^verbatim>\<open>depth\<close>.
  \<open>scanChars\<close> is the loop over the remaining characters and returns the state after
  the last one; \<open>parseInput\<close> runs it from the initial state and then pushes what is
  left in the buffer. An exception ends both.
\<close>

type_synonym scanState = "item list \<times> string \<times> int"

function (sequential) parseInput :: "string \<Rightarrow> error + item list"
  and scanChars :: "scanState \<Rightarrow> string \<Rightarrow> error + scanState"
where
  "parseInput input =
     (case scanChars ([], [], 0) input of
        Inl e \<Rightarrow> Inl e
      | Inr (items, buffer, depth) \<Rightarrow>
          (let buffer = trim buffer
           in Inr (if buffer \<noteq> [] then items @ [Str buffer] else items)))"
| "scanChars st [] = Inr st"
| "scanChars (items, buffer, depth) (char # rest) =
     (if char = CHR ''('' then
        (let buffer = trim buffer
         in if depth = 0 \<and> buffer \<noteq> []
            then scanChars (items @ [Rec [(buffer, [])]], [] @ [char], depth + 1) rest
            else scanChars (items, buffer @ [char], depth + 1) rest)
      else if char = CHR '')'' then
        (let depth = depth - 1;
             buffer = buffer @ [char]
         in if depth = 0 then
              (let buffer = trim buffer
               in case parseInput (slice buffer 1 (- 1)) of
                    Inl e \<Rightarrow> Inl e
                  | Inr children \<Rightarrow>
                      (if items \<noteq> [] \<and> truthy (last items) then
                         (case assignFirstKey (last items) children of
                            Inl e \<Rightarrow> Inl e
                          | Inr lastItem \<Rightarrow>
                              scanChars (butlast items @ [lastItem], [], depth) rest)
                       else scanChars (children, [], depth) rest))
            else scanChars (items, buffer, depth) rest)
      else if char = CHR '','' \<and> depth = 0 then
        (let buffer = trim buffer
         in scanChars (if buffer \<noteq> [] then items @ [Str buffer] else items, [], depth) rest)
      else scanChars (items, buffer @ [char], depth) rest)"
  by pat_completeness auto

text \<open>
  Every call consumes input: the recursive parse runs on a proper part of the buffer,
  and the buffer never holds more than the characters read so far.
\<close>

termination
proof (relation "inv_image (less_than <*lex*> less_than <*lex*> less_than)
    (\<lambda>x. case x of
            Inl input \<Rightarrow> (length input, 1::nat, 0::nat)
          | Inr ((items, buffer, depth), rest) \<Rightarrow>
              (length buffer + length rest, 0, length rest))",
    goal_cases)
  case 1
  show ?case
    by (intro wf_inv_image wf_lex_prod wf_less_than)
next
  case 2
  then show ?case by simp
next
  case (3 items buffer depth char rest x)
  have "length (trim buffer) \<le> length buffer"
    unfolding trim_def
    by (metis length_dropWhile_le length_rev order_trans)
  with 3 show ?case by auto
next
  case (4 items buffer depth char rest x)
  have "length (trim buffer) \<le> length buffer"
    unfolding trim_def
    by (metis length_dropWhile_le length_rev order_trans)
  with 4 show ?case by auto
next
  case (5 items buffer depth char rest x xa xb)
  have "length (trim (buffer @ [char])) \<le> length (buffer @ [char])"
    unfolding trim_def
    by (metis length_dropWhile_le length_rev order_trans)
  then have "length (slice (trim (buffer @ [char])) 1 (- 1)) < Suc (length buffer)"
    by (simp add: slice_def Let_def)
  with 5 show ?case by auto
next
  case 6
  then show ?case by auto
next
  case 7
  then show ?case by auto
next
  case 8
  then show ?case by auto
next
  case 9
  then show ?case by auto
next
  case 10
  then show ?case by auto
qed

declare parseInput.simps [simp del]

section \<open>Sorter\<close>

text \<open>
  The comparator of \<^verbatim>\<open>sortItems\<close> takes the string itself or \<^verbatim>\<open>Object.keys(a)[0]\<close>.
  For a record with no key that is \<^verbatim>\<open>undefined\<close>; see \<open>sortItems\<close> below.
\<close>

fun itemKey :: "item \<Rightarrow> string" where
  "itemKey (Str s) = s"
| "itemKey (Rec []) = ''undefined''"
| "itemKey (Rec ((k, v) # kvs)) = k"

text \<open>
  \<^verbatim>\<open>localeCompare\<close> is implementation-defined; the language standard requires it to
  be a consistent comparator on all strings, which is what the type \<open>string comparator\<close>
  holds. It is a parameter of the model.
\<close>

definition alphabetically :: "string comparator \<Rightarrow> item comparator" where
  "alphabetically localeCompare = key itemKey localeCompare"

text \<open>
  \<^verbatim>\<open>items.sort(alphabetically)\<close> is a stable sort; with a consistent comparator its
  result is the stable sorted permutation, here computed by insertion.
  \<open>sortNested\<close> is the \<^verbatim>\<open>for\<close> loop that sorts the children of every record.

  A record with no key makes the call throw: either the comparator reads
  \<^verbatim>\<open>undefined.localeCompare\<close>, or the loop calls \<^verbatim>\<open>sortItems(undefined)\<close>. The
  model returns the error and not the partly sorted array.
\<close>

function (sequential) sortItems :: "string comparator \<Rightarrow> item list \<Rightarrow> error + item list"
  and sortNested :: "string comparator \<Rightarrow> item list \<Rightarrow> error + item list"
where
  "sortItems localeCompare items =
     (if Rec [] \<in> set items then Inl TypeError
      else sortNested localeCompare
             (Sorting_Algorithms.sort (alphabetically localeCompare) items))"
| "sortNested localeCompare [] = Inr []"
| "sortNested localeCompare (Str s # rest) =
     (case sortNested localeCompare rest of
        Inl e \<Rightarrow> Inl e
      | Inr rest' \<Rightarrow> Inr (Str s # rest'))"
| "sortNested localeCompare (Rec [] # rest) = Inl TypeError"
| "sortNested localeCompare (Rec ((k, children) # kvs) # rest) =
     (case sortItems localeCompare children of
        Inl e \<Rightarrow> Inl e
      | Inr children' \<Rightarrow>
          (case sortNested localeCompare rest of
             Inl e \<Rightarrow> Inl e
           | Inr rest' \<Rightarrow> Inr (Rec ((k, children') # kvs) # rest')))"
  by pat_completeness auto

termination
proof (relation "inv_image (less_than <*lex*> less_than)
    (\<lambda>x. case x of
            Inl (cmp, items) \<Rightarrow> (size_list size items, 1::nat)
          | Inr (cmp, items) \<Rightarrow> (size_list size items, 0))",
    goal_cases)
  case 1
  show ?case
    by (intro wf_inv_image wf_lex_prod wf_less_than)
next
  case (2 localeCompare items)
  have "sum_list (map size (Sorting_Algorithms.sort (alphabetically localeCompare) items))
          = sum_list (map size items)"
    by (metis mset_map mset_sort sum_mset_sum_list)
  then show ?case
    by (simp add: size_list_conv_sum_list)
next
  case 3
  then show ?case by simp
next
  case 4
  then show ?case by simp
next
  case 5
  then show ?case by simp
qed

declare sortItems.simps [simp del]

section \<open>Printer\<close>

text \<open>
  The output is the list of strings passed to \<^verbatim>\<open>console.log\<close>, one per call, and the
  exception that ended the traversal, if any. \<^verbatim>\<open>Object.entries(item)[0]\<close> of a record
  with no key is \<^verbatim>\<open>undefined\<close>, and destructuring it throws. The indent is a natural
  number: the callers start at 0 and only add 1.
\<close>

definition printLine :: "nat \<Rightarrow> string \<Rightarrow> string" where
  "printLine indent name = concat (replicate indent ''  '') @ ''- '' @ name"

fun printItems :: "item list \<Rightarrow> nat \<Rightarrow> string list \<times> error option" where
  "printItems [] indent = ([], None)"
| "printItems (Str s # rest) indent =
     (case printItems rest indent of
        (out, e) \<Rightarrow> (printLine indent s # out, e))"
| "printItems (Rec [] # rest) indent = ([], Some TypeError)"
| "printItems (Rec ((k, children) # kvs) # rest) indent =
     (case printItems children (indent + 1) of
        (out, Some e) \<Rightarrow> (printLine indent k # out, Some e)
      | (out, None) \<Rightarrow>
          (case printItems rest indent of
             (out', e) \<Rightarrow> (printLine indent k # out @ out', e)))"

section \<open>Notions used in the statements\<close>

text \<open>An Item of the spec: every record, at every depth, has exactly one key.\<close>

fun singleKeyItems :: "item list \<Rightarrow> bool" where
  "singleKeyItems [] = True"
| "singleKeyItems (Str s # rest) = singleKeyItems rest"
| "singleKeyItems (Rec [(k, children)] # rest) = (singleKeyItems children \<and> singleKeyItems rest)"
| "singleKeyItems (Rec kvs # rest) = False"

text \<open>
  What holds of every sequence the parser builds: single-key records at every depth,
  and no empty string at the top level.
\<close>

definition parsedItems :: "item list \<Rightarrow> bool" where
  "parsedItems items = (singleKeyItems items \<and> list_all truthy items)"

text \<open>The number of Items at all depths.\<close>

fun countItems :: "item list \<Rightarrow> nat" where
  "countItems [] = 0"
| "countItems (Str s # rest) = Suc (countItems rest)"
| "countItems (Rec [(k, children)] # rest) = Suc (countItems children + countItems rest)"
| "countItems (Rec kvs # rest) = Suc (countItems rest)"

text \<open>
  Depth and name of every Item in document order: a Node, then its children one level
  deeper, then its next sibling.
\<close>

fun depthNames :: "nat \<Rightarrow> item list \<Rightarrow> (nat \<times> string) list" where
  "depthNames d [] = []"
| "depthNames d (Str s # rest) = (d, s) # depthNames d rest"
| "depthNames d (Rec [(k, children)] # rest) =
     (d, k) # depthNames (Suc d) children @ depthNames d rest"
| "depthNames d (Rec kvs # rest) = (d, itemKey (Rec kvs)) # depthNames d rest"


text \<open>A comparator puts the names of a list in strictly ascending order.\<close>

fun ascending :: "string comparator \<Rightarrow> string list \<Rightarrow> bool" where
  "ascending cmp [] = True"
| "ascending cmp [x] = True"
| "ascending cmp (x # y # ys) = (compare cmp x y = Less \<and> ascending cmp (y # ys))"

text \<open>
  The three delimiters of the notation. \<open>unpad\<close> removes the white space around names,
  commas and parentheses: it trims every maximal run of characters that holds no
  delimiter. \<open>unpadFrom seg\<close> does so for a text whose current run started with \<open>seg\<close>.
\<close>

definition isDelimiter :: "char \<Rightarrow> bool" where
  "isDelimiter c = (c = CHR ''('' \<or> c = CHR '')'' \<or> c = CHR '','')"

fun unpadFrom :: "string \<Rightarrow> string \<Rightarrow> string" where
  "unpadFrom seg [] = trim seg"
| "unpadFrom seg (c # cs) =
     (if isDelimiter c then trim seg @ c # unpadFrom [] cs else unpadFrom (seg @ [c]) cs)"

definition unpad :: "string \<Rightarrow> string" where
  "unpad s = unpadFrom [] s"

text \<open>
  Balanced parentheses: read from \<open>d\<close> open groups, no closing parenthesis comes
  without an open group and none stays open at the end.
\<close>

fun balancedFrom :: "nat \<Rightarrow> string \<Rightarrow> bool" where
  "balancedFrom d [] = (d = 0)"
| "balancedFrom d (c # cs) =
     (if c = CHR ''('' then balancedFrom (Suc d) cs
      else if c = CHR '')'' then 0 < d \<and> balancedFrom (d - 1) cs
      else balancedFrom d cs)"

definition balanced :: "string \<Rightarrow> bool" where
  "balanced s = balancedFrom 0 s"



section \<open>Auxiliary notions of the proofs\<close>

text \<open>A text without delimiters.\<close>

definition plain :: "string \<Rightarrow> bool" where
  "plain s = list_all (\<lambda>c. \<not> isDelimiter c) s"

text \<open>What \<open>parseInput\<close> does after the loop.\<close>

fun endOfInput :: "error + scanState \<Rightarrow> error + item list" where
  "endOfInput (Inl e) = Inl e"
| "endOfInput (Inr (items, buffer, depth)) =
     Inr (if trim buffer \<noteq> [] then items @ [Str (trim buffer)] else items)"

text \<open>
  The scan inside a group, from \<open>d\<close> open groups and the buffer \<open>b\<close>: the buffer and
  the remaining input when the closing parenthesis of the group is the next character,
  or \<open>None\<close> when the input ends first.
\<close>

fun closeAt :: "nat \<Rightarrow> string \<Rightarrow> string \<Rightarrow> (string \<times> string) option" where
  "closeAt d b [] = None"
| "closeAt d b (c # cs) =
     (if c = CHR ''('' then closeAt (Suc d) (trim b @ [c]) cs
      else if c = CHR '')'' then
        (if d \<le> 1 then Some (b, cs) else closeAt (d - 1) (b @ [c]) cs)
      else closeAt d (b @ [c]) cs)"

section \<open>Facts about trimming\<close>

lemma not_isWhiteSpace_delimiter [simp]:
  "\<not> isWhiteSpace CHR ''(''" "\<not> isWhiteSpace CHR '')''" "\<not> isWhiteSpace CHR '',''"
  by (simp_all add: isWhiteSpace_def)


lemma trim_Nil [simp]: "trim [] = []"
  by (simp add: trim_def)

lemma dropWhile_rev_dropWhile:
  "dropWhile P (rev (dropWhile P (rev (dropWhile P xs)))) = rev (dropWhile P (rev (dropWhile P xs)))"
proof (cases "dropWhile P xs")
  case Nil
  then show ?thesis by (simp del: dropWhile_eq_Nil_conv)
next
  case (Cons y ys)
  then have ny: "\<not> P y"
    by (metis hd_dropWhile list.discI list.sel(1))
  have "rev (dropWhile P (rev (y # ys))) = y # rev (dropWhile P (rev ys))"
    using ny by (simp add: dropWhile_append)
  with ny Cons show ?thesis by simp
qed

lemma trim_idem [simp]: "trim (trim s) = trim s"
  unfolding trim_def
  by (simp add: dropWhile_rev_dropWhile)

lemma trim_append_ws: "list_all isWhiteSpace w \<Longrightarrow> trim (s @ w) = trim s"
proof -
  assume w: "list_all isWhiteSpace w"
  show ?thesis
  proof (cases "list_all isWhiteSpace s")
    case True
    with w have "dropWhile isWhiteSpace (s @ w) = []" "dropWhile isWhiteSpace s = []"
      by (auto simp: list_all_iff)
    then show ?thesis by (simp add: trim_def del: dropWhile_eq_Nil_conv)
  next
    case False
    then have "dropWhile isWhiteSpace (s @ w) = dropWhile isWhiteSpace s @ w"
      by (auto simp: dropWhile_append list_all_iff)
    moreover have "dropWhile isWhiteSpace (rev w @ r) = dropWhile isWhiteSpace r" for r
      using w by (auto simp: dropWhile_append list_all_iff)
    ultimately show ?thesis by (simp add: trim_def)
  qed
qed

lemma set_trim: "set (trim s) \<subseteq> set s"
proof -
  have "set (trim s) \<subseteq> set (dropWhile isWhiteSpace s)"
    unfolding trim_def using set_dropWhileD by fastforce
  also have "\<dots> \<subseteq> set s"
    using set_dropWhileD by fastforce
  finally show ?thesis .
qed

lemma trim_fixed:
  "s \<noteq> [] \<Longrightarrow> \<not> isWhiteSpace (hd s) \<Longrightarrow> \<not> isWhiteSpace (last s) \<Longrightarrow> trim s = s"
proof -
  assume s: "s \<noteq> []" and h: "\<not> isWhiteSpace (hd s)" and l: "\<not> isWhiteSpace (last s)"
  from s h have "dropWhile isWhiteSpace s = s"
    by (cases s) auto
  moreover from s l have "dropWhile isWhiteSpace (rev s) = rev s"
    by (cases "rev s") (auto simp: last_rev [symmetric] hd_rev)
  ultimately show ?thesis by (simp add: trim_def)
qed

lemma trim_ends:
  "trim s \<noteq> [] \<Longrightarrow> \<not> isWhiteSpace (hd (trim s)) \<and> \<not> isWhiteSpace (last (trim s))"
proof -
  assume ne: "trim s \<noteq> []"
  have l: "\<not> isWhiteSpace (last (trim s))"
    using ne unfolding trim_def by (simp add: last_rev hd_dropWhile)
  have "dropWhile isWhiteSpace (trim s) = trim s"
    unfolding trim_def by (rule dropWhile_rev_dropWhile)
  then have "\<not> isWhiteSpace (hd (trim s))"
    using ne by (metis hd_dropWhile)
  with l show ?thesis by simp
qed

lemma trim_paren_split:
  "\<exists>y' w. y = y' @ w \<and> list_all isWhiteSpace w \<and> trim (CHR ''('' # y) = CHR ''('' # y'"
proof -
  let ?w = "rev (takeWhile isWhiteSpace (rev y))"
  let ?y = "rev (dropWhile isWhiteSpace (rev y))"
  have "y = ?y @ ?w"
    by (metis rev_append rev_rev_ident takeWhile_dropWhile_id)
  moreover have "list_all isWhiteSpace ?w"
    by (auto simp: list_all_iff dest: set_takeWhileD)
  moreover have "trim (CHR ''('' # y) = CHR ''('' # ?y"
    by (simp add: trim_def dropWhile_append)
  ultimately show ?thesis by blast
qed

section \<open>The steps of the scan\<close>

text \<open>One equation for each branch of the loop body.\<close>

lemma scanChars_open:
  "scanChars (items, buffer, depth) (CHR ''('' # rest) =
     (if depth = 0 \<and> trim buffer \<noteq> []
      then scanChars (items @ [Node (trim buffer) []], ''('', depth + 1) rest
      else scanChars (items, trim buffer @ ''('', depth + 1) rest)"
  by (simp add: Let_def)

lemma scanChars_close_inner:
  "depth \<noteq> 1 \<Longrightarrow>
   scanChars (items, buffer, depth) (CHR '')'' # rest) =
     scanChars (items, buffer @ '')'', depth - 1) rest"
  by (simp add: Let_def)

lemma scanChars_close_group:
  "scanChars (items, buffer, 1) (CHR '')'' # rest) =
     (case parseInput (slice (trim (buffer @ '')'')) 1 (- 1)) of
        Inl e \<Rightarrow> Inl e
      | Inr children \<Rightarrow>
          (if items \<noteq> [] \<and> truthy (last items) then
             (case assignFirstKey (last items) children of
                Inl e \<Rightarrow> Inl e
              | Inr lastItem \<Rightarrow> scanChars (butlast items @ [lastItem], [], 0) rest)
           else scanChars (children, [], 0) rest))"
  by (simp add: Let_def)

lemma scanChars_comma:
  "scanChars (items, buffer, 0) (CHR '','' # rest) =
     scanChars (if trim buffer \<noteq> [] then items @ [Leaf (trim buffer)] else items, [], 0) rest"
  by (simp add: Let_def)

lemma scanChars_other:
  "c \<noteq> CHR ''('' \<Longrightarrow> c \<noteq> CHR '')'' \<Longrightarrow> c \<noteq> CHR '','' \<or> depth \<noteq> 0 \<Longrightarrow>
   scanChars (items, buffer, depth) (c # rest) = scanChars (items, buffer @ [c], depth) rest"
  by (auto simp add: Let_def)

lemma scanChars_append:
  "scanChars st (p @ q) = (case scanChars st p of Inl e \<Rightarrow> Inl e | Inr st' \<Rightarrow> scanChars st' q)"
proof (induction p arbitrary: st)
  case Nil
  show ?case by simp
next
  case (Cons c p)
  obtain items buffer depth where st: "st = (items, buffer, depth)"
    by (cases st) auto
  consider (lparen) "c = CHR ''(''"
    | (group) "c = CHR '')''" "depth = 1"
    | (nested) "c = CHR '')''" "depth \<noteq> 1"
    | (comma) "c = CHR '',''" "depth = 0"
    | (other) "c \<noteq> CHR ''(''" "c \<noteq> CHR '')''" "c \<noteq> CHR '','' \<or> depth \<noteq> 0"
    by blast
  then show ?case
  proof cases
    case lparen
    then show ?thesis
      by (simp only: st append_Cons scanChars_open Cons.IH if_distrib [of "\<lambda>r. case_sum Inl (\<lambda>st'. scanChars st' q) r"] if_cancel)
  next
    case group
    then show ?thesis
      by (simp add: st scanChars_close_group Cons.IH split: sum.split del: scanChars.simps)
  next
    case nested
    then show ?thesis
      by (simp add: st scanChars_close_inner Cons.IH del: scanChars.simps)
  next
    case comma
    then show ?thesis
      by (simp add: st scanChars_comma Cons.IH del: scanChars.simps)
  next
    case other
    then show ?thesis
      by (simp add: st scanChars_other Cons.IH del: scanChars.simps)
  qed
qed

declare scanChars.simps(2) [simp del]

section \<open>Single-key records\<close>

lemma singleKeyItems_append:
  "singleKeyItems (xs @ ys) = (singleKeyItems xs \<and> singleKeyItems ys)"
  by (induction xs rule: singleKeyItems.induct) auto

lemma singleKeyItems_butlast:
  "singleKeyItems xs \<Longrightarrow> singleKeyItems (butlast xs)"
  by (induction xs rule: singleKeyItems.induct) auto

lemma singleKeyItems_last:
  "singleKeyItems xs \<Longrightarrow> xs \<noteq> [] \<Longrightarrow> singleKeyItems [last xs]"
  by (induction xs rule: singleKeyItems.induct) auto

lemma singleKeyItems_Rec:
  "singleKeyItems [Rec kvs] = (\<exists>k children. kvs = [(k, children)] \<and> singleKeyItems children)"
  by (cases "(Rec kvs # [])" rule: singleKeyItems.cases) auto

lemma assignFirstKey_singleKey:
  "assignFirstKey x children = Inr y \<Longrightarrow> singleKeyItems [x] \<Longrightarrow> singleKeyItems children \<Longrightarrow>
   singleKeyItems [y]"
  by (cases x) (auto simp: singleKeyItems_Rec)

lemma assignFirstKey_truthy:
  "assignFirstKey x children = Inr y \<Longrightarrow> truthy y"
  by (cases "(x, children)" rule: assignFirstKey.cases) auto

lemma parsedItems_Nil: "parsedItems []"
  by (simp add: parsedItems_def)

lemma parsedItems_snoc_Node: "parsedItems items \<Longrightarrow> parsedItems (items @ [Node name []])"
  by (simp add: parsedItems_def singleKeyItems_append)

lemma parsedItems_snoc_Leaf: "parsedItems items \<Longrightarrow> name \<noteq> [] \<Longrightarrow> parsedItems (items @ [Leaf name])"
  by (simp add: parsedItems_def singleKeyItems_append)

lemma parsedItems_assign:
  assumes "parsedItems items" "singleKeyItems children" "items \<noteq> []"
    and "assignFirstKey (last items) children = Inr lastItem"
  shows "parsedItems (butlast items @ [lastItem])"
proof -
  have "singleKeyItems [lastItem]"
    using assms assignFirstKey_singleKey singleKeyItems_last
    by (auto simp: parsedItems_def)
  moreover have "truthy lastItem"
    using assms(4) by (rule assignFirstKey_truthy)
  moreover have "list_all truthy (butlast items)"
    using assms(1) by (auto simp: parsedItems_def list_all_iff dest: in_set_butlastD)
  ultimately show ?thesis
    using assms(1) by (simp add: parsedItems_def singleKeyItems_append singleKeyItems_butlast)
qed


lemma parse_invariant:
  "(\<forall>items. parseInput input = Inr items \<longrightarrow> parsedItems items)"
  "(\<forall>items' buffer' depth'. parsedItems (fst st) \<longrightarrow>
      scanChars st rest = Inr (items', buffer', depth') \<longrightarrow> parsedItems items')"
proof (induction input and st rest rule: parseInput_scanChars.induct)
  case (1 input)
  show ?case
  proof (intro allI impI)
    fix items
    assume res: "parseInput input = Inr items"
    then obtain items' buffer depth where
      scan: "scanChars ([], [], 0) input = Inr (items', buffer, depth)"
      and items: "items = (if trim buffer \<noteq> [] then items' @ [Leaf (trim buffer)] else items')"
      by (auto simp: parseInput.simps [of input] Let_def split: sum.splits)
    have "parsedItems items'"
      using 1 scan parsedItems_Nil by fastforce
    then show "parsedItems items"
      by (simp add: items parsedItems_snoc_Leaf)
  qed
next
  case (2 st)
  show ?case by auto
next
  case (3 items buffer depth char rest)
  show ?case
  proof (intro allI impI)
    fix items' buffer' depth'
    assume inv: "parsedItems (fst (items, buffer, depth))"
      and res: "scanChars (items, buffer, depth) (char # rest) = Inr (items', buffer', depth')"
    from inv have inv': "parsedItems items" by simp
    consider (lparen) "char = CHR ''(''"
      | (group) "char = CHR '')''" "depth = 1"
      | (nested) "char = CHR '')''" "depth \<noteq> 1"
      | (comma) "char = CHR '',''" "depth = 0"
      | (other) "char \<noteq> CHR ''(''" "char \<noteq> CHR '')''" "char \<noteq> CHR '','' \<or> depth \<noteq> 0"
      by blast
    then show "parsedItems items'"
    proof cases
      case lparen
      show ?thesis
      proof (cases "depth = 0 \<and> trim buffer \<noteq> []")
        case True
        with lparen res have "scanChars (items @ [Node (trim buffer) []], [] @ [char], depth + 1) rest = Inr (items', buffer', depth')"
          by (simp add: scanChars_open)
        with 3(1) [OF lparen refl True] inv' show ?thesis
          by (simp add: parsedItems_snoc_Node)
      next
        case False
        with lparen res have "scanChars (items, trim buffer @ [char], depth + 1) rest = Inr (items', buffer', depth')"
          by (simp add: scanChars_open)
        with 3(2) [OF lparen refl False] inv' show ?thesis
          by simp
      qed
    next
      case group
      have d: "depth - 1 = 0" using group by simp
      from group res obtain children where
        children: "parseInput (slice (trim (buffer @ [char])) 1 (- 1)) = Inr children"
        by (auto simp: scanChars_close_group split: sum.splits)
      have ne: "char \<noteq> CHR ''(''" using group by simp
      have "parsedItems children"
        using 3(3) [OF ne group(1) refl refl d refl] children by simp
      then have sk: "singleKeyItems children"
        by (simp add: parsedItems_def)
      show ?thesis
      proof (cases "items \<noteq> [] \<and> truthy (last items)")
        case True
        with group res children obtain lastItem where
          li: "assignFirstKey (last items) children = Inr lastItem"
          and r: "scanChars (butlast items @ [lastItem], [], depth - 1) rest = Inr (items', buffer', depth')"
          by (auto simp: scanChars_close_group split: sum.splits)
        have "parsedItems (butlast items @ [lastItem])"
          using inv' sk True li by (simp add: parsedItems_assign)
        with 3(4) [OF ne group(1) refl refl d refl children True li] r show ?thesis
          by simp
      next
        case False
        with group res children have
          r: "scanChars (children, [], depth - 1) rest = Inr (items', buffer', depth')"
          by (auto simp: scanChars_close_group split: sum.splits)
        with 3(5) [OF ne group(1) refl refl d refl children False] \<open>parsedItems children\<close>
        show ?thesis by simp
      qed
    next
      case nested
      have ne: "char \<noteq> CHR ''(''" using nested by simp
      have d: "depth - 1 \<noteq> 0" using nested by simp
      from nested res have "scanChars (items, buffer @ [char], depth - 1) rest = Inr (items', buffer', depth')"
        by (simp add: scanChars_close_inner)
      with 3(6) [OF ne nested(1) refl refl d] inv' show ?thesis
        by simp
    next
      case comma
      have ne: "char \<noteq> CHR ''(''" "char \<noteq> CHR '')''" using comma by simp_all
      from comma res have
        r: "scanChars (if trim buffer \<noteq> [] then items @ [Leaf (trim buffer)] else items, [], depth) rest = Inr (items', buffer', depth')"
        by (simp add: scanChars_comma)
      have "parsedItems (if trim buffer \<noteq> [] then items @ [Leaf (trim buffer)] else items)"
        using inv' by (simp add: parsedItems_snoc_Leaf)
      with 3(7) [OF ne _ refl] comma r show ?thesis
        by simp
    next
      case other
      from other res have "scanChars (items, buffer @ [char], depth) rest = Inr (items', buffer', depth')"
        by (simp add: scanChars_other)
      with 3(8) [OF other(1,2)] other(3) inv' show ?thesis
        by auto
    qed
  qed
qed

lemma singleKeyItems_iff_set:
  "singleKeyItems xs = (\<forall>x\<in>set xs. singleKeyItems [x])"
  by (induction xs rule: singleKeyItems.induct) auto

lemma singleKeyItems_sort:
  "singleKeyItems (Sorting_Algorithms.sort cmp xs) = singleKeyItems xs"
  using singleKeyItems_iff_set [of xs] singleKeyItems_iff_set [of "Sorting_Algorithms.sort cmp xs"]
  by simp

lemma singleKeyItems_no_empty_record:
  "singleKeyItems xs \<Longrightarrow> Rec [] \<notin> set xs"
  by (induction xs rule: singleKeyItems.induct) auto

lemma sort_singleKey:
  "(singleKeyItems items \<longrightarrow> (\<exists>r. sortItems cmp items = Inr r \<and> singleKeyItems r))"
  "(singleKeyItems items' \<longrightarrow> (\<exists>r. sortNested cmp items' = Inr r \<and> singleKeyItems r))"
proof (induction cmp items and cmp items' rule: sortItems_sortNested.induct)
  case (1 cmp items)
  show ?case
  proof
    assume sk: "singleKeyItems items"
    then have ne: "Rec [] \<notin> set items"
      by (rule singleKeyItems_no_empty_record)
    from 1 [OF ne] sk show "\<exists>r. sortItems cmp items = Inr r \<and> singleKeyItems r"
      by (simp add: sortItems.simps [of cmp items] ne singleKeyItems_sort)
  qed
next
  case (2 cmp)
  show ?case by simp
next
  case (3 cmp s rest)
  then show ?case by auto
next
  case (4 cmp rest)
  show ?case by simp
next
  case (5 cmp k children kvs rest)
  show ?case
  proof
    assume sk: "singleKeyItems (Rec ((k, children) # kvs) # rest)"
    then have kvs: "kvs = []" and c: "singleKeyItems children" and r: "singleKeyItems rest"
      by (cases kvs; simp)+
    from 5(1) c obtain children' where
      c': "sortItems cmp children = Inr children'" "singleKeyItems children'"
      by auto
    from 5(2) [OF c'(1)] r obtain rest' where
      r': "sortNested cmp rest = Inr rest'" "singleKeyItems rest'"
      by auto
    show "\<exists>r. sortNested cmp (Rec ((k, children) # kvs) # rest) = Inr r \<and> singleKeyItems r"
      using c' r' kvs by simp
  qed
qed

lemma concat_replicate_two_spaces:
  "concat (replicate n ''  '') = replicate (2 * n) CHR '' ''"
  by (induction n) simp_all

lemma printItems_singleKey:
  "singleKeyItems items \<Longrightarrow>
   printItems items indent =
     (map (\<lambda>(d, name). replicate (2 * d) CHR '' '' @ ''- '' @ name) (depthNames indent items), None)"
proof (induction items arbitrary: indent rule: singleKeyItems.induct)
  case (2 s rest)
  then show ?case
    by (simp add: printLine_def concat_replicate_two_spaces)
next
  case (3 k children rest)
  then show ?case
    by (simp add: printLine_def concat_replicate_two_spaces)
qed simp_all

lemma length_depthNames:
  "singleKeyItems items \<Longrightarrow> length (depthNames d items) = countItems items"
  by (induction items arbitrary: d rule: singleKeyItems.induct) simp_all

section \<open>Sorting twice\<close>

lemma sortNested_keys:
  "sortNested cmp xs = Inr ys \<Longrightarrow> map itemKey ys = map itemKey xs"
proof (induction xs arbitrary: ys)
  case Nil
  then show ?case by simp
next
  case (Cons x xs)
  show ?case
  proof (cases x)
    case (Str s)
    with Cons show ?thesis
      by (auto split: sum.splits)
  next
    case (Rec kvs)
    with Cons show ?thesis
      by (cases kvs) (auto split: sum.splits)
  qed
qed

lemma sortNested_no_empty_record:
  "sortNested cmp xs = Inr ys \<Longrightarrow> Rec [] \<notin> set ys"
proof (induction xs arbitrary: ys)
  case Nil
  then show ?case by simp
next
  case (Cons x xs)
  show ?case
  proof (cases x)
    case (Str s)
    with Cons show ?thesis
      by (auto split: sum.splits)
  next
    case (Rec kvs)
    with Cons show ?thesis
      by (cases kvs) (auto split: sum.splits)
  qed
qed

lemma sorted_alphabetically_keys:
  "map itemKey ys = map itemKey xs \<Longrightarrow>
   Sorting_Algorithms.sorted (alphabetically cmp) xs \<Longrightarrow>
   Sorting_Algorithms.sorted (alphabetically cmp) ys"
proof (induction "alphabetically cmp" xs arbitrary: ys rule: Sorting_Algorithms.sorted.induct)
  case 1
  then show ?case by simp
next
  case (2 x)
  then show ?case by (cases ys) auto
next
  case (3 y x xs)
  from 3(2) obtain y' x' ys' where ys: "ys = y' # x' # ys'"
    and k: "itemKey y' = itemKey y" "itemKey x' = itemKey x" "map itemKey ys' = map itemKey xs"
    by (cases ys; cases "tl ys") auto
  from 3(3) have "Sorting_Algorithms.sorted (alphabetically cmp) (x # xs)"
    and "compare (alphabetically cmp) y x \<noteq> Greater"
    by simp_all
  with 3(1) [of "x' # ys'"] k show ?case
    by (simp add: ys alphabetically_def)
qed

lemma sort_sorted_id:
  "Sorting_Algorithms.sorted cmp xs \<Longrightarrow> Sorting_Algorithms.sort cmp xs = xs"
  by (rule sort_eqI) simp_all

lemma sort_twice:
  "(\<forall>r. sortItems cmp items = Inr r \<longrightarrow> sortItems cmp r = Inr r)"
  "(\<forall>r. sortNested cmp items' = Inr r \<longrightarrow> sortNested cmp r = Inr r)"
proof (induction cmp items and cmp items' rule: sortItems_sortNested.induct)
  case (1 cmp items)
  show ?case
  proof (intro allI impI)
    fix r
    assume res: "sortItems cmp items = Inr r"
    then have ne: "Rec [] \<notin> set items"
      and nested: "sortNested cmp (Sorting_Algorithms.sort (alphabetically cmp) items) = Inr r"
      by (auto simp: sortItems.simps [of cmp items] split: if_splits)
    have again: "sortNested cmp r = Inr r"
      using 1 [OF ne] nested by simp
    have "Sorting_Algorithms.sorted (alphabetically cmp) r"
      using sortNested_keys [OF nested] sorted_sort
      by (rule sorted_alphabetically_keys)
    then have "Sorting_Algorithms.sort (alphabetically cmp) r = r"
      by (rule sort_sorted_id)
    moreover have "Rec [] \<notin> set r"
      using nested by (rule sortNested_no_empty_record)
    ultimately show "sortItems cmp r = Inr r"
      using again by (simp add: sortItems.simps [of cmp r])
  qed
next
  case (2 cmp)
  show ?case by simp
next
  case (3 cmp s rest)
  then show ?case by (auto split: sum.splits)
next
  case (4 cmp rest)
  show ?case by simp
next
  case (5 cmp k children kvs rest)
  show ?case
  proof (intro allI impI)
    fix r
    assume res: "sortNested cmp (Rec ((k, children) # kvs) # rest) = Inr r"
    then obtain children' rest' where
      c: "sortItems cmp children = Inr children'"
      and t: "sortNested cmp rest = Inr rest'"
      and r: "r = Rec ((k, children') # kvs) # rest'"
      by (auto split: sum.splits)
    from 5(1) c have "sortItems cmp children' = Inr children'" by simp
    moreover from 5(2) [OF c] t have "sortNested cmp rest' = Inr rest'" by simp
    ultimately show "sortNested cmp r = Inr r"
      by (simp add: r)
  qed
qed

text \<open>
  C6. Sorting is idempotent: when the first call returns, a second call on its result
  returns that same result, at every depth; when the first call throws there is no
  second call. This holds for every comparator the host may supply.
\<close>

theorem sortItems_idempotent:
  "(case sortItems cmp items of Inl e \<Rightarrow> Inl e | Inr once \<Rightarrow> sortItems cmp once)
     = sortItems cmp items"
  using sort_twice(1) [of cmp items] by (cases "sortItems cmp items") simp_all

section \<open>Worked inputs of the parser\<close>

text \<open>
  C4. Parsing \<^verbatim>\<open>a, b(c, d), e\<close> returns the three Items: Leaf a, Node b with the
  children Leaf c and Leaf d, and Leaf e.
\<close>

theorem parseInput_round_trip_shape:
  "parseInput ''a, b(c, d), e'' =
     Inr [Leaf ''a'', Node ''b'' [Leaf ''c'', Leaf ''d''], Leaf ''e'']"
  by code_simp

text \<open>
  C2. The parser is total in the model (the recursion above terminates on every input),
  but it does raise: on \<^verbatim>\<open>a,(b)\<close> the group closes while the last element of the result
  is the string \<^verbatim>\<open>a\<close>, and the assignment to its first key throws a TypeError.
\<close>

theorem parseInput_raises_on_group_after_leaf:
  "parseInput ''a,(b)'' = Inl TypeError"
  by code_simp

text \<open>
  C3. On \<^verbatim>\<open>x, y, (z)\<close> the closing parenthesis returns the depth to 0 (the scan of the
  text before it ends at depth 1), no record was emitted (the result holds the
  strings \<^verbatim>\<open>x\<close> and \<^verbatim>\<open>y\<close> only), and the group parses to Leaf z; the result is not
  replaced by that sequence: the scan ends with a TypeError.
\<close>

theorem scanChars_no_replacement_after_leaf:
  "scanChars ([], [], 0) ''x, y, (z'' = Inr ([Leaf ''x'', Leaf ''y''], ''(z'', 1)
   \<and> parseInput ''z'' = Inr [Leaf ''z'']
   \<and> scanChars ([], [], 0) ''x, y, (z)'' = Inl TypeError
   \<and> parseInput ''x, y, (z)'' = Inl TypeError"
  by code_simp

section \<open>The end-to-end scenario\<close>

lemma ascending_ConsD:
  "ascending cmp (x # xs) \<Longrightarrow> y \<in> set xs \<Longrightarrow>
   compare cmp x y = Less \<and> compare cmp y x = Greater"
proof (induction xs arbitrary: x)
  case Nil
  then show ?case by simp
next
  case (Cons z zs)
  from Cons.prems(1) have xz: "compare cmp x z = Less" and rest: "ascending cmp (z # zs)"
    by simp_all
  show ?case
  proof (cases "y = z")
    case True
    with xz show ?thesis
      by (simp add: compare.greater_iff_sym_less)
  next
    case False
    with Cons.prems(2) have "y \<in> set zs" by simp
    with Cons.IH [OF rest] have "compare cmp z y = Less" by simp
    with xz have "compare cmp x y = Less"
      by (rule compare.trans_less)
    then show ?thesis
      by (simp add: compare.greater_iff_sym_less)
  qed
qed

lemma ascending_tail: "ascending cmp (x # xs) \<Longrightarrow> ascending cmp xs"
  by (cases xs) simp_all


text \<open>
  C1. The end-to-end input parses to id, name, email, type(id, name,
  customFields(c1, c2, c3)), externalId: the outer parenthesis pair closes while the
  result is empty, so its parsed content becomes the result. Sorting that result with
  any comparator that orders the names alphabetically gives email, externalId, id,
  name, type, with the children of type in the order customFields(c1, c2, c3), id, name.
\<close>

theorem parseInput_sortItems_end_to_end:
  assumes top: "ascending cmp [''email'', ''externalId'', ''id'', ''name'', ''type'']"
    and inner: "ascending cmp [''customFields'', ''id'', ''name'']"
    and innermost: "ascending cmp [''c1'', ''c2'', ''c3'']"
  shows "parseInput ''(id, name, email, type(id, name, customFields(c1, c2, c3)), externalId)'' =
           Inr [Leaf ''id'', Leaf ''name'', Leaf ''email'',
                Node ''type'' [Leaf ''id'', Leaf ''name'',
                               Node ''customFields'' [Leaf ''c1'', Leaf ''c2'', Leaf ''c3'']],
                Leaf ''externalId'']
       \<and> sortItems cmp
           [Leaf ''id'', Leaf ''name'', Leaf ''email'',
            Node ''type'' [Leaf ''id'', Leaf ''name'',
                           Node ''customFields'' [Leaf ''c1'', Leaf ''c2'', Leaf ''c3'']],
            Leaf ''externalId''] =
           Inr [Leaf ''email'', Leaf ''externalId'', Leaf ''id'', Leaf ''name'',
                Node ''type'' [Node ''customFields'' [Leaf ''c1'', Leaf ''c2'', Leaf ''c3''],
                               Leaf ''id'', Leaf ''name'']]"
proof -
  have parsed:
    "parseInput ''(id, name, email, type(id, name, customFields(c1, c2, c3)), externalId)'' =
           Inr [Leaf ''id'', Leaf ''name'', Leaf ''email'',
                Node ''type'' [Leaf ''id'', Leaf ''name'',
                               Node ''customFields'' [Leaf ''c1'', Leaf ''c2'', Leaf ''c3'']],
                Leaf ''externalId'']"
    by code_simp
  note t1 = ascending_ConsD [OF top]
  note t2 = ascending_ConsD [OF top [THEN ascending_tail]]
  note t3 = ascending_ConsD [OF top [THEN ascending_tail, THEN ascending_tail]]
  note t4 = ascending_ConsD [OF top [THEN ascending_tail, THEN ascending_tail, THEN ascending_tail]]
  note i1 = ascending_ConsD [OF inner]
  note i2 = ascending_ConsD [OF inner [THEN ascending_tail]]
  note m1 = ascending_ConsD [OF innermost]
  note m2 = ascending_ConsD [OF innermost [THEN ascending_tail]]
  have c3: "sortItems cmp [Leaf ''c1'', Leaf ''c2'', Leaf ''c3''] =
              Inr [Leaf ''c1'', Leaf ''c2'', Leaf ''c3'']"
    using m1 m2 by (simp add: sortItems.simps alphabetically_def)
  have ty: "sortItems cmp [Leaf ''id'', Leaf ''name'',
                           Node ''customFields'' [Leaf ''c1'', Leaf ''c2'', Leaf ''c3'']] =
              Inr [Node ''customFields'' [Leaf ''c1'', Leaf ''c2'', Leaf ''c3''],
                   Leaf ''id'', Leaf ''name'']"
    using i1 i2 c3 by (simp add: sortItems.simps [of cmp "[_, _, _]"] alphabetically_def)
  have "sortItems cmp
           [Leaf ''id'', Leaf ''name'', Leaf ''email'',
            Node ''type'' [Leaf ''id'', Leaf ''name'',
                           Node ''customFields'' [Leaf ''c1'', Leaf ''c2'', Leaf ''c3'']],
            Leaf ''externalId''] =
           Inr [Leaf ''email'', Leaf ''externalId'', Leaf ''id'', Leaf ''name'',
                Node ''type'' [Node ''customFields'' [Leaf ''c1'', Leaf ''c2'', Leaf ''c3''],
                               Leaf ''id'', Leaf ''name'']]"
    using t1 t2 t3 t4 ty by (simp add: sortItems.simps [of cmp "[_, _, _, _, _]"] alphabetically_def)
  with parsed show ?thesis
    by (rule conjI)
qed

text \<open>The code-unit order of the strings is such a comparator.\<close>

theorem parseInput_sortItems_end_to_end_witness:
  "ascending default [''email'', ''externalId'', ''id'', ''name'', ''type'']
   \<and> ascending default [''customFields'', ''id'', ''name'']
   \<and> ascending default [''c1'', ''c2'', ''c3'']
   \<and> parseInput ''(id, name, email, type(id, name, customFields(c1, c2, c3)), externalId)'' =
           Inr [Leaf ''id'', Leaf ''name'', Leaf ''email'',
                Node ''type'' [Leaf ''id'', Leaf ''name'',
                               Node ''customFields'' [Leaf ''c1'', Leaf ''c2'', Leaf ''c3'']],
                Leaf ''externalId'']
   \<and> sortItems default
           [Leaf ''id'', Leaf ''name'', Leaf ''email'',
            Node ''type'' [Leaf ''id'', Leaf ''name'',
                           Node ''customFields'' [Leaf ''c1'', Leaf ''c2'', Leaf ''c3'']],
            Leaf ''externalId''] =
           Inr [Leaf ''email'', Leaf ''externalId'', Leaf ''id'', Leaf ''name'',
                Node ''type'' [Node ''customFields'' [Leaf ''c1'', Leaf ''c2'', Leaf ''c3''],
                               Leaf ''id'', Leaf ''name'']]"
proof -
  have a: "ascending default [''email'', ''externalId'', ''id'', ''name'', ''type'']"
    by (simp add: less_char_def)
  have b: "ascending default [''customFields'', ''id'', ''name'']"
    by (simp add: less_char_def)
  have c: "ascending default [''c1'', ''c2'', ''c3'']"
    by (simp add: less_char_def)
  show ?thesis
    using a b c parseInput_sortItems_end_to_end [OF a b c] by simp
qed

section \<open>The printed hierarchy\<close>

text \<open>
  C7. For every sequence of Items (strings and single-key records), the printer
  emits one line per Item of every depth, in document order: a Node's line, then its
  children one level deeper, then the next sibling. A line is two spaces for each level
  of depth, then \<^verbatim>\<open>- \<close> and the name of the Item. No exception ends the traversal.
\<close>

theorem printItems_one_line_per_item:
  assumes "singleKeyItems items"
  shows "printItems items indent =
           (map (\<lambda>(d, name). replicate (2 * d) CHR '' '' @ ''- '' @ name)
              (depthNames indent items), None)
       \<and> length (fst (printItems items indent)) = countItems items"
  using assms by (simp add: printItems_singleKey length_depthNames)

theorem printItems_one_line_per_item_witness:
  "singleKeyItems [Leaf ''a'', Node ''b'' [Leaf ''c'', Leaf ''d''], Leaf ''e'']
   \<and> printItems [Leaf ''a'', Node ''b'' [Leaf ''c'', Leaf ''d''], Leaf ''e''] 0 =
       ([''- a'', ''- b'', ''  - c'', ''  - d'', ''- e''], None)
   \<and> countItems [Leaf ''a'', Node ''b'' [Leaf ''c'', Leaf ''d''], Leaf ''e''] = 5"
proof -
  have sk: "singleKeyItems [Leaf ''a'', Node ''b'' [Leaf ''c'', Leaf ''d''], Leaf ''e'']"
    by simp
  show ?thesis
    using printItems_one_line_per_item [OF sk, of 0] by (simp add: printLine_def)
qed

section \<open>The single-key representation\<close>

text \<open>
  C8. Every record in a sequence returned by the parser has exactly one key, at every
  depth. The sorter returns such a sequence for such a sequence. The printer assigns
  nothing; on such a sequence each of its reads of the first entry of a record
  succeeds, so it ends without an exception.
\<close>

theorem single_key_representation:
  "(parseInput input = Inr parsed \<longrightarrow> singleKeyItems parsed)
   \<and> (singleKeyItems items \<longrightarrow>
        (\<exists>r. sortItems cmp items = Inr r \<and> singleKeyItems r)
        \<and> snd (printItems items indent) = None)"
  using parse_invariant(1) [of input] sort_singleKey(1) [of items cmp]
  by (auto simp: parsedItems_def printItems_singleKey)

theorem single_key_representation_witness:
  "parseInput ''b(d, c), a'' = Inr [Node ''b'' [Leaf ''d'', Leaf ''c''], Leaf ''a'']
   \<and> singleKeyItems [Node ''b'' [Leaf ''d'', Leaf ''c''], Leaf ''a'']
   \<and> sortItems default [Node ''b'' [Leaf ''d'', Leaf ''c''], Leaf ''a''] =
       Inr [Leaf ''a'', Node ''b'' [Leaf ''c'', Leaf ''d'']]
   \<and> singleKeyItems [Leaf ''a'', Node ''b'' [Leaf ''c'', Leaf ''d'']]
   \<and> snd (printItems [Node ''b'' [Leaf ''d'', Leaf ''c''], Leaf ''a''] 0) = None"
proof -
  have p: "parseInput ''b(d, c), a'' = Inr [Node ''b'' [Leaf ''d'', Leaf ''c''], Leaf ''a'']"
    by code_simp
  have s: "sortItems default [Node ''b'' [Leaf ''d'', Leaf ''c''], Leaf ''a''] =
       Inr [Leaf ''a'', Node ''b'' [Leaf ''c'', Leaf ''d'']]"
    by (simp add: sortItems.simps alphabetically_def less_char_def)
  show ?thesis
    using p s
      single_key_representation [of "''b(d, c), a''" "[Node ''b'' [Leaf ''d'', Leaf ''c''], Leaf ''a'']"
        "[Node ''b'' [Leaf ''d'', Leaf ''c''], Leaf ''a'']" default 0]
    by simp
qed

section \<open>The closing parenthesis of a group\<close>

lemma parseInput_error:
  "scanChars ([], [], 0) input = Inl e \<Longrightarrow> parseInput input = Inl e"
  by (simp add: parseInput.simps [of input])


lemma scanChars_start_invariant:
  "scanChars ([], [], 0) input = Inr (items, buffer, depth) \<Longrightarrow> parsedItems items"
  using parse_invariant(2) [of "([], [], 0)" input] by (simp add: parsedItems_Nil)

lemma last_parsedItems:
  assumes "parsedItems items" "items \<noteq> []"
  shows "(\<exists>name. name \<noteq> [] \<and> last items = Leaf name) \<or> (\<exists>name old. last items = Node name old)"
proof (cases "last items")
  case (Str name)
  from assms have "truthy (last items)"
    by (simp add: parsedItems_def list_all_iff)
  with Str show ?thesis by simp
next
  case (Rec kvs)
  from assms have "singleKeyItems [last items]"
    by (simp add: parsedItems_def singleKeyItems_last)
  with Rec show ?thesis
    by (auto simp: singleKeyItems_Rec)
qed

text \<open>
  C9. When a closing parenthesis returns the depth to 0 and the recursive parse of the
  group returns, the result so far is replaced by the children only if it is empty.
  Otherwise the children are assigned to the first key of its last element, whatever
  that element is: for a Node placeholder they become its children; for a Leaf (a
  string) the assignment throws a TypeError, which ends the scan and the parse.
\<close>

theorem closing_group_assigns_to_last_item:
  assumes "scanChars ([], [], 0) before = Inr (items, buffer, 1)"
    and "parseInput (slice (trim (buffer @ '')'')) 1 (- 1)) = Inr children"
  shows "(items = [] \<and> scanChars ([], [], 0) (before @ '')'') = Inr (children, [], 0))
       \<or> (\<exists>name. items \<noteq> [] \<and> last items = Leaf name
             \<and> scanChars ([], [], 0) (before @ '')'') = Inl TypeError
             \<and> parseInput (before @ '')'' @ rest) = Inl TypeError)
       \<or> (\<exists>name old. items \<noteq> [] \<and> last items = Node name old
             \<and> scanChars ([], [], 0) (before @ '')'') =
                 Inr (butlast items @ [Node name children], [], 0))"
proof -
  have inv: "parsedItems items"
    using assms(1) by (rule scanChars_start_invariant)
  have step: "scanChars ([], [], 0) (before @ '')'' @ r) =
      (if items \<noteq> [] \<and> truthy (last items) then
         (case assignFirstKey (last items) children of
            Inl e \<Rightarrow> Inl e
          | Inr lastItem \<Rightarrow> scanChars (butlast items @ [lastItem], [], 0) r)
       else scanChars (children, [], 0) r)" for r
    using assms by (simp add: scanChars_append scanChars_close_group)
  show ?thesis
  proof (cases "items = []")
    case True
    with step [of "[]"] show ?thesis by simp
  next
    case False
    from last_parsedItems [OF inv False] show ?thesis
    proof (elim disjE exE conjE)
      fix name
      assume "name \<noteq> []" "last items = Leaf name"
      with False step have "scanChars ([], [], 0) (before @ '')'' @ r) = Inl TypeError" for r
        by simp
      from this [of "[]"] this [of rest] False \<open>last items = Leaf name\<close> show ?thesis
        by (simp add: parseInput_error)
    next
      fix name old
      assume "last items = Node name old"
      with False step [of "[]"] show ?thesis
        by simp
    qed
  qed
qed

theorem closing_group_assigns_to_last_item_witness:
  "scanChars ([], [], 0) ''a,(b'' = Inr ([Leaf ''a''], ''(b'', 1)
   \<and> parseInput (slice (trim (''(b'' @ '')'')) 1 (- 1)) = Inr [Leaf ''b'']
   \<and> scanChars ([], [], 0) (''a,(b'' @ '')'') = Inl TypeError
   \<and> parseInput (''a,(b'' @ '')'' @ '', c'') = Inl TypeError"
proof -
  have s: "scanChars ([], [], 0) ''a,(b'' = Inr ([Leaf ''a''], ''(b'', 1)"
    by code_simp
  have p: "parseInput (slice (trim (''(b'' @ '')'')) 1 (- 1)) = Inr [Leaf ''b'']"
    by code_simp
  show ?thesis
    using s p closing_group_assigns_to_last_item [OF s p, of "'', c''"] by simp
qed

section \<open>Input that ends inside a group\<close>








section \<open>White space around names and delimiters\<close>

lemma isWhiteSpace_plain: "isWhiteSpace c \<Longrightarrow> \<not> isDelimiter c"
  by (auto simp: isWhiteSpace_def isDelimiter_def)

lemma plain_Nil [simp]: "plain []"
  by (simp add: plain_def)

lemma plain_snoc [simp]: "plain (s @ [c]) = (plain s \<and> \<not> isDelimiter c)"
  by (auto simp: plain_def)

lemma plain_trim: "plain s \<Longrightarrow> plain (trim s)"
  using set_trim [of s] by (auto simp: plain_def list_all_iff)

lemma plain_ws: "list_all isWhiteSpace w \<Longrightarrow> plain w"
  by (auto simp: plain_def list_all_iff isWhiteSpace_plain)

lemma unpadFrom_plain:
  "plain x \<Longrightarrow> unpadFrom seg (x @ r) = unpadFrom (seg @ x) r"
  by (induction x arbitrary: seg) (simp_all add: plain_def)

lemma unpadFrom_ws_before_delimiter:
  "list_all isWhiteSpace w \<Longrightarrow> isDelimiter c \<Longrightarrow>
   unpadFrom seg (x @ w @ c # r) = unpadFrom seg (x @ c # r)"
proof (induction x arbitrary: seg)
  case Nil
  then show ?case
    by (simp add: unpadFrom_plain plain_ws trim_append_ws)
next
  case (Cons a x)
  then show ?case by simp
qed

lemma scanChars_plain:
  "plain x \<Longrightarrow>
   scanChars (items, buffer, depth) (x @ rest) = scanChars (items, buffer @ x, depth) rest"
proof (induction x arbitrary: buffer)
  case Nil
  show ?case by simp
next
  case (Cons c x)
  then have c: "c \<noteq> CHR ''(''" "c \<noteq> CHR '')''" "c \<noteq> CHR '',''" and x: "plain x"
    by (auto simp: plain_def isDelimiter_def)
  show ?case
    using Cons.IH [OF x, of "buffer @ [c]"] c by (simp add: scanChars_other)
qed

lemma closeAt_plain:
  "plain x \<Longrightarrow> closeAt d b (x @ rest) = closeAt d (b @ x) rest"
proof (induction x arbitrary: b)
  case Nil
  show ?case by simp
next
  case (Cons c x)
  then have c: "c \<noteq> CHR ''(''" "c \<noteq> CHR '')''" and x: "plain x"
    by (auto simp: plain_def isDelimiter_def)
  show ?case
    using Cons.IH [OF x, of "b @ [c]"] c by simp
qed

lemma scanChars_closeAt:
  "0 < d \<Longrightarrow> closeAt d b rest = Some (B, after) \<Longrightarrow>
   scanChars (items, b, int d) rest = scanChars (items, B, 1) (CHR '')'' # after)"
proof (induction rest arbitrary: d b)
  case Nil
  then show ?case by simp
next
  case (Cons c cs)
  consider (lparen) "c = CHR ''(''"
    | (group) "c = CHR '')''" "d = 1"
    | (nested) "c = CHR '')''" "1 < d"
    | (other) "c \<noteq> CHR ''(''" "c \<noteq> CHR '')''"
    using Cons.prems(1) by fastforce
  then show ?case
  proof cases
    case lparen
    with Cons.prems have "closeAt (Suc d) (trim b @ ''('') cs = Some (B, after)"
      by simp
    from Cons.IH [OF _ this] lparen Cons.prems(1) show ?thesis
      by (simp add: scanChars_open add.commute)
  next
    case group
    with Cons.prems show ?thesis by simp
  next
    case nested
    with Cons.prems have "closeAt (d - 1) (b @ '')'') cs = Some (B, after)"
      by simp
    from Cons.IH [OF _ this] nested show ?thesis
      by (simp add: scanChars_close_inner of_nat_diff)
  next
    case other
    with Cons.prems have "closeAt d (b @ [c]) cs = Some (B, after)"
      by simp
    from Cons.IH [OF Cons.prems(1) this] other Cons.prems(1) show ?thesis
      by (simp add: scanChars_other)
  qed
qed

lemma closeAt_balanced:
  "0 < d \<Longrightarrow> balancedFrom d rest \<Longrightarrow>
   \<exists>B after. closeAt d b rest = Some (B, after) \<and> balancedFrom 0 after"
proof (induction rest arbitrary: d b)
  case Nil
  then show ?case by simp
next
  case (Cons c cs)
  then show ?case
    by (cases "d = 1") (auto split: if_splits)
qed

lemma closeAt_length:
  "closeAt d b rest = Some (B, after) \<Longrightarrow> length B + length after < length b + length rest"
proof (induction rest arbitrary: d b)
  case Nil
  then show ?case by simp
next
  case (Cons c cs)
  have "length (trim b) \<le> length b"
    unfolding trim_def by (metis length_dropWhile_le length_rev order_trans)
  with Cons show ?case
    by (fastforce split: if_splits)
qed

lemma closeAt_hd:
  "closeAt d (CHR ''('' # y) rest = Some (B, after) \<Longrightarrow> \<exists>yB. B = CHR ''('' # yB"
proof (induction rest arbitrary: d y)
  case Nil
  then show ?case by simp
next
  case (Cons c cs)
  obtain y' where "trim (CHR ''('' # y) = CHR ''('' # y'"
    using trim_paren_split [of y] by blast
  with Cons show ?case
    by (fastforce split: if_splits)
qed

lemma balancedFrom_ws:
  "list_all isWhiteSpace w \<Longrightarrow> balancedFrom d (x @ w @ r) = balancedFrom d (x @ r)"
proof (induction x arbitrary: d)
  case Nil
  then show ?case
    by (induction w) (auto simp: isWhiteSpace_def)
next
  case (Cons a x)
  then show ?case by simp
qed

lemma closeAt_inner_balanced:
  "0 < d \<Longrightarrow> closeAt d (CHR ''('' # y) rest = Some (B, after) \<Longrightarrow>
   (\<And>r. balancedFrom (d - 1) r \<Longrightarrow> balancedFrom 0 (y @ r)) \<Longrightarrow>
   balancedFrom 0 (tl B)"
proof (induction rest arbitrary: d y)
  case Nil
  then show ?case by simp
next
  case (Cons c cs)
  consider (lparen) "c = CHR ''(''"
    | (group) "c = CHR '')''" "d = 1"
    | (nested) "c = CHR '')''" "1 < d"
    | (other) "c \<noteq> CHR ''(''" "c \<noteq> CHR '')''"
    using Cons.prems(1) by fastforce
  then show ?case
  proof cases
    case lparen
    obtain y' w where y: "y = y' @ w" "list_all isWhiteSpace w"
      "trim (CHR ''('' # y) = CHR ''('' # y'"
      using trim_paren_split [of y] by blast
    with lparen Cons.prems(2) have
      c: "closeAt (Suc d) (CHR ''('' # (y' @ ''('')) cs = Some (B, after)"
      by simp
    have "balancedFrom 0 ((y' @ ''('') @ r)" if "balancedFrom (Suc d - 1) r" for r
    proof -
      from that Cons.prems(1) have "balancedFrom (d - 1) (CHR ''('' # r)"
        by simp
      then have "balancedFrom 0 (y @ CHR ''('' # r)"
        by (rule Cons.prems(3))
      then show ?thesis
        using balancedFrom_ws [OF y(2), of 0 y' "CHR ''('' # r"] by (simp add: y(1))
    qed
    with Cons.IH [OF _ c] show ?thesis by simp
  next
    case group
    with Cons.prems(2) have "B = CHR ''('' # y" by simp
    with Cons.prems(3) [of "[]"] group show ?thesis by simp
  next
    case nested
    with Cons.prems(2) have
      c: "closeAt (d - 1) (CHR ''('' # (y @ '')'')) cs = Some (B, after)"
      by simp
    have "balancedFrom 0 ((y @ '')'') @ r)" if "balancedFrom (d - 1 - 1) r" for r
    proof -
      from that nested have "balancedFrom (d - 1) (CHR '')'' # r)"
        by simp
      then show ?thesis
        using Cons.prems(3) by simp
    qed
    with Cons.IH [OF _ c] nested show ?thesis by simp
  next
    case other
    with Cons.prems(2) have
      c: "closeAt d (CHR ''('' # (y @ [c])) cs = Some (B, after)"
      by simp
    have "balancedFrom 0 ((y @ [c]) @ r)" if "balancedFrom (d - 1) r" for r
    proof -
      from that other have "balancedFrom (d - 1) (c # r)"
        by simp
      then show ?thesis
        using Cons.prems(3) by simp
    qed
    with Cons.IH [OF Cons.prems(1) c] show ?thesis by simp
  qed
qed

lemma slice_group:
  "slice (trim (CHR ''('' # y @ '')'')) 1 (- 1) = y"
proof -
  have "trim (CHR ''('' # y @ '')'') = CHR ''('' # y @ '')''"
    by (rule trim_fixed) simp_all
  then show ?thesis
    by (simp add: slice_def Let_def)
qed

lemma trim_group_buffer:
  assumes "U = [] \<or> isDelimiter (last U)"
  shows "trim (CHR ''('' # U @ trim seg) = CHR ''('' # U @ trim seg"
proof (rule trim_fixed)
  show "CHR ''('' # U @ trim seg \<noteq> []" by simp
  show "\<not> isWhiteSpace (hd (CHR ''('' # U @ trim seg))" by simp
  show "\<not> isWhiteSpace (last (CHR ''('' # U @ trim seg))"
  proof (cases "trim seg = []")
    case False
    with trim_ends [of seg] show ?thesis by simp
  next
    case True
    with assms show ?thesis
      using isWhiteSpace_plain [of "last U"] by auto
  qed
qed

lemma closeAt_unpad:
  "0 < d \<Longrightarrow> plain seg \<Longrightarrow> U = [] \<or> isDelimiter (last U) \<Longrightarrow>
   (\<And>r. unpadFrom [] (y @ r) = U @ unpadFrom seg r) \<Longrightarrow>
   closeAt d (CHR ''('' # y) rest = Some (B, after) \<Longrightarrow>
   \<exists>B'. closeAt d (CHR ''('' # U) (unpadFrom seg rest) = Some (B', unpadFrom [] after)
        \<and> tl B' = unpad (tl B)"
proof (induction rest arbitrary: d seg U y)
  case Nil
  then show ?case by simp
next
  case (Cons c cs)
  have pt: "plain (trim seg)"
    using Cons.prems(2) by (rule plain_trim)
  consider (lparen) "c = CHR ''(''"
    | (group) "c = CHR '')''" "d = 1"
    | (nested) "c = CHR '')''" "1 < d"
    | (comma) "c = CHR '',''"
    | (other) "\<not> isDelimiter c"
    using Cons.prems(1) by (fastforce simp: isDelimiter_def)
  then show ?case
  proof cases
    case lparen
    obtain y' w where y: "y = y' @ w" "list_all isWhiteSpace w"
      "trim (CHR ''('' # y) = CHR ''('' # y'"
      using trim_paren_split [of y] by blast
    with lparen Cons.prems(5) have
      c: "closeAt (Suc d) (CHR ''('' # (y' @ ''('')) cs = Some (B, after)"
      by simp
    have u: "unpadFrom [] ((y' @ ''('') @ r) = (U @ trim seg @ ''('') @ unpadFrom [] r" for r
    proof -
      have "unpadFrom [] (y' @ CHR ''('' # r) = unpadFrom [] (y @ CHR ''('' # r)"
        using unpadFrom_ws_before_delimiter [OF y(2), of "CHR ''(''" "[]" y' r]
        by (simp add: y(1) isDelimiter_def)
      also have "\<dots> = U @ unpadFrom seg (CHR ''('' # r)"
        by (rule Cons.prems(4))
      finally show ?thesis
        by (simp add: isDelimiter_def)
    qed
    have "\<exists>B'. closeAt (Suc d) (CHR ''('' # (U @ trim seg @ ''('')) (unpadFrom [] cs)
             = Some (B', unpadFrom [] after) \<and> tl B' = unpad (tl B)"
      by (rule Cons.IH [OF _ _ _ u c]) (simp_all add: isDelimiter_def)
    moreover have "closeAt d (CHR ''('' # U) (unpadFrom seg (c # cs))
        = closeAt (Suc d) (CHR ''('' # (U @ trim seg @ ''('')) (unpadFrom [] cs)"
      using closeAt_plain [OF pt, of d "CHR ''('' # U" "CHR ''('' # unpadFrom [] cs"]
        trim_group_buffer [OF Cons.prems(3), of seg]
      by (simp add: lparen isDelimiter_def)
    ultimately show ?thesis by simp
  next
    case group
    with Cons.prems(5) have B: "B = CHR ''('' # y" "after = cs" by simp_all
    have "closeAt d (CHR ''('' # U) (unpadFrom seg (c # cs))
        = Some (CHR ''('' # U @ trim seg, unpadFrom [] cs)"
      using closeAt_plain [OF pt, of d "CHR ''('' # U" "CHR '')'' # unpadFrom [] cs"]
      by (simp add: group isDelimiter_def)
    moreover have "unpad y = U @ trim seg"
      using Cons.prems(4) [of "[]"] by (simp add: unpad_def)
    ultimately show ?thesis
      by (simp add: B)
  next
    case nested
    with Cons.prems(5) have
      c: "closeAt (d - 1) (CHR ''('' # (y @ '')'')) cs = Some (B, after)"
      by simp
    have u: "unpadFrom [] ((y @ '')'') @ r) = (U @ trim seg @ '')'') @ unpadFrom [] r" for r
      using Cons.prems(4) [of "CHR '')'' # r"] by (simp add: isDelimiter_def)
    have "\<exists>B'. closeAt (d - 1) (CHR ''('' # (U @ trim seg @ '')'')) (unpadFrom [] cs)
             = Some (B', unpadFrom [] after) \<and> tl B' = unpad (tl B)"
      by (rule Cons.IH [OF _ _ _ u c]) (use nested in \<open>simp_all add: isDelimiter_def\<close>)
    moreover have "closeAt d (CHR ''('' # U) (unpadFrom seg (c # cs))
        = closeAt (d - 1) (CHR ''('' # (U @ trim seg @ '')'')) (unpadFrom [] cs)"
      using closeAt_plain [OF pt, of d "CHR ''('' # U" "CHR '')'' # unpadFrom [] cs"] nested
      by (simp add: isDelimiter_def)
    ultimately show ?thesis by simp
  next
    case comma
    with Cons.prems(5) have
      c: "closeAt d (CHR ''('' # (y @ '','')) cs = Some (B, after)"
      by simp
    have u: "unpadFrom [] ((y @ '','') @ r) = (U @ trim seg @ '','') @ unpadFrom [] r" for r
      using Cons.prems(4) [of "CHR '','' # r"] by (simp add: isDelimiter_def)
    have "\<exists>B'. closeAt d (CHR ''('' # (U @ trim seg @ '','')) (unpadFrom [] cs)
             = Some (B', unpadFrom [] after) \<and> tl B' = unpad (tl B)"
      by (rule Cons.IH [OF Cons.prems(1) _ _ u c]) (simp_all add: isDelimiter_def)
    moreover have "closeAt d (CHR ''('' # U) (unpadFrom seg (c # cs))
        = closeAt d (CHR ''('' # (U @ trim seg @ '','')) (unpadFrom [] cs)"
      using closeAt_plain [OF pt, of d "CHR ''('' # U" "CHR '','' # unpadFrom [] cs"] comma
      by (simp add: isDelimiter_def)
    ultimately show ?thesis by simp
  next
    case other
    then have ne: "c \<noteq> CHR ''(''" "c \<noteq> CHR '')''"
      by (auto simp: isDelimiter_def)
    with Cons.prems(5) have
      c: "closeAt d (CHR ''('' # (y @ [c])) cs = Some (B, after)"
      by simp
    have u: "unpadFrom [] ((y @ [c]) @ r) = U @ unpadFrom (seg @ [c]) r" for r
      using Cons.prems(4) [of "c # r"] other by simp
    have "\<exists>B'. closeAt d (CHR ''('' # U) (unpadFrom (seg @ [c]) cs)
             = Some (B', unpadFrom [] after) \<and> tl B' = unpad (tl B)"
      by (rule Cons.IH [OF Cons.prems(1) _ Cons.prems(3) u c]) (simp add: Cons.prems(2) other)
    with other show ?thesis by simp
  qed
qed

lemma parseInput_endOfInput:
  "parseInput input = endOfInput (scanChars ([], [], 0) input)"
  by (cases "scanChars ([], [], 0) input") (auto simp: parseInput.simps [of input])

lemma scan_group:
  assumes "closeAt 1 ''('' cs = Some (B, after)"
  shows "scanChars (items, ''('', 1) cs =
     (case parseInput (tl B) of
        Inl e \<Rightarrow> Inl e
      | Inr children \<Rightarrow>
          (if items \<noteq> [] \<and> truthy (last items) then
             (case assignFirstKey (last items) children of
                Inl e \<Rightarrow> Inl e
              | Inr lastItem \<Rightarrow> scanChars (butlast items @ [lastItem], [], 0) after)
           else scanChars (children, [], 0) after))"
proof -
  obtain yB where B: "B = CHR ''('' # yB"
    using closeAt_hd [OF assms] by blast
  have "scanChars (items, ''('', 1) cs = scanChars (items, B, 1) (CHR '')'' # after)"
    using scanChars_closeAt [of 1 "''(''" cs B after items] assms by simp
  then show ?thesis
    by (simp add: scanChars_close_group B slice_group)
qed

lemma scan_unpadFrom:
  assumes shorter: "\<And>u. length u < n \<Longrightarrow> balanced u \<Longrightarrow> parseInput u = parseInput (unpad u)"
  shows "length rest \<le> n \<Longrightarrow> plain seg \<Longrightarrow> balancedFrom 0 rest \<Longrightarrow>
    endOfInput (scanChars (items, seg, 0) rest) =
    endOfInput (scanChars (items, [], 0) (unpadFrom seg rest))"
proof (induction rest arbitrary: items seg rule: length_induct)
  case (1 rest)
  have pt: "plain (trim seg)"
    using "1.prems"(2) by (rule plain_trim)
  show ?case
  proof (cases rest)
    case Nil
    have "scanChars (items, [], 0) (trim seg) = Inr (items, trim seg, 0)"
      using scanChars_plain [OF pt, of items "[]" 0 "[]"] by simp
    with Nil show ?thesis by simp
  next
    case (Cons c cs)
    have ih: "endOfInput (scanChars (items', seg', 0) r) =
        endOfInput (scanChars (items', [], 0) (unpadFrom seg' r))"
      if "length r < length rest" "plain seg'" "balancedFrom 0 r" for r items' seg'
      using "1.IH" that "1.prems"(1) by simp
    consider (lparen) "c = CHR ''(''"
      | (rparen) "c = CHR '')''"
      | (comma) "c = CHR '',''"
      | (other) "\<not> isDelimiter c"
      by (auto simp: isDelimiter_def)
    then show ?thesis
    proof cases
      case lparen
      let ?items = "if trim seg \<noteq> [] then items @ [Node (trim seg) []] else items"
      have l: "scanChars (items, seg, 0) rest = scanChars (?items, ''('', 1) cs"
        by (simp add: Cons lparen scanChars_open)
      have r: "scanChars (items, [], 0) (unpadFrom seg rest) =
          scanChars (?items, ''('', 1) (unpadFrom [] cs)"
        using scanChars_plain [OF pt, of items "[]" 0 "CHR ''('' # unpadFrom [] cs"]
        by (simp add: Cons lparen isDelimiter_def scanChars_open)
      from "1.prems"(3) have "balancedFrom 1 cs"
        by (simp add: Cons lparen)
      then obtain B after where c: "closeAt 1 ''('' cs = Some (B, after)"
        and ba: "balancedFrom 0 after"
        using closeAt_balanced [of 1 cs "''(''"] by auto
      obtain yB where "B = CHR ''('' # yB"
        using closeAt_hd [OF c] by blast
      with closeAt_length [OF c] have len: "length (tl B) + length after < length cs"
        by simp
      obtain B' where c': "closeAt 1 ''('' (unpadFrom [] cs) = Some (B', unpadFrom [] after)"
        and tl: "tl B' = unpad (tl B)"
        using closeAt_unpad [of 1 "[]" "[]" "[]" cs B after] c by auto
      have "balanced (tl B)"
        unfolding balanced_def
        using closeAt_inner_balanced [of 1 "[]" cs B after] c by simp
      moreover have "length (tl B) < n"
        using len "1.prems"(1) by (simp add: Cons)
      ultimately have p: "parseInput (tl B') = parseInput (tl B)"
        using shorter [of "tl B"] by (simp add: tl)
      have a: "endOfInput (scanChars (items', [], 0) after) =
          endOfInput (scanChars (items', [], 0) (unpadFrom [] after))" for items'
        using ih [of after "[]" items'] len ba by (simp add: Cons)
      show ?thesis
        unfolding l r scan_group [OF c] scan_group [OF c'] p
        by (simp add: a split: sum.split)
    next
      case rparen
      with "1.prems"(3) show ?thesis
        by (simp add: Cons)
    next
      case comma
      let ?items = "if trim seg \<noteq> [] then items @ [Leaf (trim seg)] else items"
      have l: "scanChars (items, seg, 0) rest = scanChars (?items, [], 0) cs"
        by (simp add: Cons comma scanChars_comma)
      have r: "scanChars (items, [], 0) (unpadFrom seg rest) =
          scanChars (?items, [], 0) (unpadFrom [] cs)"
        using scanChars_plain [OF pt, of items "[]" 0 "CHR '','' # unpadFrom [] cs"]
        by (simp add: Cons comma isDelimiter_def scanChars_comma)
      from "1.prems"(3) have "balancedFrom 0 cs"
        by (simp add: Cons comma)
      with ih [of cs "[]" ?items] show ?thesis
        unfolding l r by (simp add: Cons)
    next
      case other
      then have ne: "c \<noteq> CHR ''(''" "c \<noteq> CHR '')''" "c \<noteq> CHR '',''"
        by (auto simp: isDelimiter_def)
      have l: "scanChars (items, seg, 0) rest = scanChars (items, seg @ [c], 0) cs"
        using ne by (simp add: Cons scanChars_other)
      from "1.prems"(3) ne have "balancedFrom 0 cs"
        by (simp add: Cons)
      with ih [of cs "seg @ [c]" items] "1.prems"(2) other show ?thesis
        unfolding l by (simp add: Cons)
    qed
  qed
qed

lemma parseInput_unpad:
  "balanced s \<Longrightarrow> parseInput s = parseInput (unpad s)"
proof (induction s rule: length_induct)
  case (1 s)
  have "endOfInput (scanChars ([], [], 0) s) =
      endOfInput (scanChars ([], [], 0) (unpadFrom [] s))"
  proof (rule scan_unpadFrom [where n = "length s"])
    show "parseInput u = parseInput (unpad u)" if "length u < length s" "balanced u" for u
      using "1.IH" that by simp
    show "balancedFrom 0 s"
      using "1.prems" by (simp add: balanced_def)
  qed simp_all
  then show ?case
    by (simp add: parseInput_endOfInput unpad_def)
qed

lemma balancedFrom_plain:
  "plain x \<Longrightarrow> balancedFrom d (x @ r) = balancedFrom d r"
  by (induction x) (auto simp: plain_def isDelimiter_def)

lemma balancedFrom_unpadFrom:
  "plain seg \<Longrightarrow> balancedFrom d (unpadFrom seg s) = balancedFrom d s"
proof (induction s arbitrary: seg d)
  case Nil
  then show ?case
    using balancedFrom_plain [OF plain_trim, of seg d "[]"] by simp
next
  case (Cons c cs)
  show ?case
  proof (cases "isDelimiter c")
    case True
    have "balancedFrom d (trim seg @ c # unpadFrom [] cs) = balancedFrom d (c # unpadFrom [] cs)"
      using Cons.prems by (simp add: balancedFrom_plain plain_trim)
    with True Cons.IH [of "[]"] show ?thesis
      by simp
  next
    case False
    with Cons.IH [of "seg @ [c]" d] Cons.prems show ?thesis
      by (simp add: isDelimiter_def)
  qed
qed

lemma balanced_unpad: "balanced (unpad s) = balanced s"
  by (simp add: balanced_def unpad_def balancedFrom_unpadFrom)

text \<open>
  C5, as stated, fails on input whose parentheses are not balanced. \<^verbatim>\<open>a( b\<close> is \<^verbatim>\<open>a(b\<close>
  with one space after the parenthesis, and \<^verbatim>\<open>) )\<close> is \<^verbatim>\<open>))\<close> with one space between
  the parentheses; in both pairs the two texts parse to Leaves of different names.
\<close>

theorem parseInput_whitespace_counterexample:
  "unpad ''a( b'' = unpad ''a(b''
   \<and> parseInput ''a( b'' = Inr [Node ''a'' [], Leaf ''( b'']
   \<and> parseInput ''a(b'' = Inr [Node ''a'' [], Leaf ''(b'']
   \<and> parseInput ''a( b'' \<noteq> parseInput ''a(b''
   \<and> unpad '') )'' = unpad ''))''
   \<and> parseInput '') )'' = Inr [Leaf '') )'']
   \<and> parseInput ''))'' = Inr [Leaf ''))'']
   \<and> parseInput '') )'' \<noteq> parseInput ''))''"
  by code_simp

text \<open>
  C5, amended. For every input with balanced parentheses, inserting or removing any
  amount of white space immediately around names, commas or parentheses does not change
  what the parser returns: a text \<open>t\<close> that is equal to the balanced text \<open>s\<close> once that
  white space is removed from both (\<open>unpad\<close>) parses to the same sequence, or raises the
  same exception.
\<close>

theorem parseInput_whitespace_insensitive:
  assumes "balanced s" and "unpad t = unpad s"
  shows "parseInput t = parseInput s"
proof -
  from assms have "balanced t"
    using balanced_unpad [of t] balanced_unpad [of s] by simp
  then have "parseInput t = parseInput (unpad t)"
    by (rule parseInput_unpad)
  also have "\<dots> = parseInput (unpad s)"
    by (simp add: assms(2))
  also have "\<dots> = parseInput s"
    using assms(1) by (rule parseInput_unpad [symmetric])
  finally show ?thesis .
qed

theorem parseInput_whitespace_insensitive_witness:
  "balanced ''a,b(c,d(e)),f''
   \<and> unpad ''  a , b ( c,d  (e ) ) ,f '' = unpad ''a,b(c,d(e)),f''
   \<and> parseInput ''  a , b ( c,d  (e ) ) ,f '' = parseInput ''a,b(c,d(e)),f''
   \<and> parseInput ''a,b(c,d(e)),f'' =
        Inr [Leaf ''a'', Node ''b'' [Leaf ''c'', Node ''d'' [Leaf ''e'']], Leaf ''f'']"
proof -
  have b: "balanced ''a,b(c,d(e)),f''"
    by code_simp
  have u: "unpad ''  a , b ( c,d  (e ) ) ,f '' = unpad ''a,b(c,d(e)),f''"
    by code_simp
  have p: "parseInput ''a,b(c,d(e)),f'' =
        Inr [Leaf ''a'', Node ''b'' [Leaf ''c'', Node ''d'' [Leaf ''e'']], Leaf ''f'']"
    by code_simp
  show ?thesis
    using b u p parseInput_whitespace_insensitive [OF b u] by simp
qed

end
